theory Spec2Isabelle
  imports Main "HOL-Library.Multiset" "HOL-Library.Sublist"
begin

section \<open>The database schema (supabase migration)\<close>

text \<open>
  The tables of the migration, as lists of rows. A UUID is an opaque key, modelled as a
  natural number. Of \<open>public.posts\<close> all columns are kept; the primary key \<open>id\<close> is the
  field \<open>post_id\<close> (\<open>id\<close> is taken in HOL). \<open>created_at\<close> is the instant of the row in
  milliseconds since the epoch, which is what the client reads from the column by
  \<open>new Date(p.created_at).getTime()\<close>. Of \<open>public.post_votes\<close> the columns \<open>post_id\<close>,
  \<open>user_id\<close> and \<open>vote_value\<close> are kept (\<open>vote_post_id\<close>, \<open>vote_user_id\<close>, \<open>vote_value\<close>); the
  generated \<open>id\<close> and the \<open>created_at\<close> default take no part in any policy, constraint or
  trigger. The row extends the record \<open>vote\<close>, which is the client's type \<open>Vote\<close>, the
  result of \<open>select("post_id, vote_value")\<close>.
\<close>

type_synonym uuid = nat

record post =
  post_id :: uuid
  club_id :: uuid
  user_id :: uuid
  title :: string
  content :: "string option"
  score :: int
  created_at :: int

record vote =
  vote_post_id :: uuid
  vote_value :: int

record post_vote = vote +
  vote_user_id :: uuid

text \<open>
  The database: \<open>auth.users\<close> and \<open>public.clubs\<close> by their keys, \<open>club_memberships\<close> as
  pairs \<open>(user_id, club_id)\<close>, and the two tables above.
\<close>

record db =
  users :: "uuid list"
  clubs :: "uuid list"
  club_memberships :: "(uuid \<times> uuid) list"
  posts :: "post list"
  post_votes :: "post_vote list"

text \<open>
  A statement that PostgreSQL refuses ends in one of these conditions (named after their
  SQLSTATE condition names): a row-level-security policy that does not hold
  (\<open>insufficient_privilege\<close>, 42501), a \<open>CHECK\<close> constraint (23514), a \<open>UNIQUE\<close> or primary
  key constraint (23505), a \<open>REFERENCES\<close> constraint (23503), or an \<open>INTEGER\<close> result out
  of the 32-bit range (22003). A refused statement changes nothing.
\<close>

datatype pg_error =
  InsufficientPrivilege
  | CheckViolation
  | UniqueViolation
  | ForeignKeyViolation
  | NumericValueOutOfRange

subsection \<open>Security-definer helpers\<close>

definition is_club_member :: "db \<Rightarrow> uuid \<Rightarrow> uuid \<Rightarrow> bool" where
  "is_club_member d uid cid = list_ex (\<lambda>m. fst m = uid \<and> snd m = cid) (club_memberships d)"

definition has_voted_on_post :: "db \<Rightarrow> uuid \<Rightarrow> uuid \<Rightarrow> bool" where
  "has_voted_on_post d uid pid =
     list_ex (\<lambda>v. vote_user_id v = uid \<and> vote_post_id v = pid) (post_votes d)"

subsection \<open>The score trigger\<close>

text \<open>
  \<open>score\<close> is an \<open>INTEGER\<close>: PostgreSQL computes \<open>score + x\<close> and \<open>score - x\<close> on 32-bit
  integers and raises \<open>integer out of range\<close> instead of wrapping.
\<close>

definition int4 :: "int \<Rightarrow> bool" where
  "int4 x \<longleftrightarrow> - 2147483648 \<le> x \<and> x \<le> 2147483647"

text \<open>
  \<open>UPDATE public.posts SET score = e(score) WHERE id = pid\<close>: every row with that key
  gets the new score; the statement fails as a whole when one result is out of range.
\<close>

definition update_score :: "uuid \<Rightarrow> (int \<Rightarrow> int) \<Rightarrow> post list \<Rightarrow> pg_error + post list" where
  "update_score pid e ps =
     (if list_all (\<lambda>p. post_id p \<noteq> pid \<or> int4 (e (score p))) ps
      then Inr (map (\<lambda>p. if post_id p = pid then p\<lparr>score := e (score p)\<rparr> else p) ps)
      else Inl NumericValueOutOfRange)"

text \<open>The statement of the \<open>INSERT\<close> branch, \<open>score = score + delta\<close>.\<close>

definition apply_delta :: "uuid \<Rightarrow> int \<Rightarrow> post list \<Rightarrow> pg_error + post list" where
  "apply_delta pid delta ps = update_score pid (\<lambda>s. s + delta) ps"

datatype tg_op = INSERT | DELETE | UPDATE

text \<open>
  \<open>update_post_score()\<close>, on the row \<open>NEW\<close> (insert) or \<open>OLD\<close> (delete). The trigger
  \<open>on_vote_change\<close> fires it after every inserted and every deleted row of \<open>post_votes\<close>;
  any other \<open>TG_OP\<close> falls through to \<open>RETURN NULL\<close> and touches nothing.
\<close>

fun update_post_score :: "tg_op \<Rightarrow> post_vote \<Rightarrow> post list \<Rightarrow> pg_error + post list" where
  "update_post_score INSERT new ps = apply_delta (vote_post_id new) (vote_value new) ps"
| "update_post_score DELETE old ps = update_score (vote_post_id old) (\<lambda>s. s - vote_value old) ps"
| "update_post_score UPDATE row ps = Inr ps"

subsection \<open>Statements on \<open>post_votes\<close> and \<open>posts\<close>, under their policies\<close>

text \<open>
  \<open>INSERT INTO post_votes\<close> by the session user \<open>auth.uid()\<close> (\<open>None\<close> when the request is
  not authenticated). The row has to be a row of the table first: a \<open>vote_value\<close> that is
  no \<open>INTEGER\<close> is refused when it is read. Then PostgreSQL checks, in this order: the
  policy "Members can vote"
  (\<open>auth.uid() = user_id AND NOT has_voted_on_post(auth.uid(), post_id)\<close>), the \<open>CHECK\<close> on
  \<open>vote_value\<close>, the \<open>UNIQUE(user_id, post_id)\<close> index, and after the row is stored the
  foreign keys and the trigger.
\<close>

definition insert_post_vote :: "uuid option \<Rightarrow> post_vote \<Rightarrow> db \<Rightarrow> pg_error + db" where
  "insert_post_vote auth_uid new d =
     (if \<not> int4 (vote_value new) then Inl NumericValueOutOfRange
      else case auth_uid of
        None \<Rightarrow> Inl InsufficientPrivilege
      | Some uid \<Rightarrow>
          if \<not> (uid = vote_user_id new \<and> \<not> has_voted_on_post d uid (vote_post_id new))
          then Inl InsufficientPrivilege
          else if \<not> (vote_value new = 1 \<or> vote_value new = - 1) then Inl CheckViolation
          else if list_ex (\<lambda>v. vote_user_id v = vote_user_id new
                              \<and> vote_post_id v = vote_post_id new) (post_votes d)
          then Inl UniqueViolation
          else if \<not> (vote_post_id new \<in> set (map post_id (posts d))
                      \<and> vote_user_id new \<in> set (users d))
          then Inl ForeignKeyViolation
          else (case update_post_score INSERT new (posts d) of
                  Inl e \<Rightarrow> Inl e
                | Inr ps \<Rightarrow> Inr (d\<lparr>posts := ps, post_votes := post_votes d @ [new]\<rparr>)))"

text \<open>The delete trigger, fired once for each deleted row, in order.\<close>

fun fire_deletes :: "post_vote list \<Rightarrow> post list \<Rightarrow> pg_error + post list" where
  "fire_deletes [] ps = Inr ps"
| "fire_deletes (old # olds) ps =
     (case update_post_score DELETE old ps of
        Inl e \<Rightarrow> Inl e
      | Inr ps' \<Rightarrow> fire_deletes olds ps')"

text \<open>
  \<open>DELETE FROM post_votes WHERE cond\<close>. The policy "Users can remove own vote"
  (\<open>auth.uid() = user_id\<close>) is a \<open>USING\<close> clause: rows of other users are invisible to the
  statement, which deletes the rest without an error, also when there is none.
\<close>

definition visible_for_delete :: "uuid option \<Rightarrow> (post_vote \<Rightarrow> bool) \<Rightarrow> post_vote \<Rightarrow> bool" where
  "visible_for_delete auth_uid cond v \<longleftrightarrow> cond v \<and> auth_uid = Some (vote_user_id v)"

definition delete_post_votes :: "uuid option \<Rightarrow> (post_vote \<Rightarrow> bool) \<Rightarrow> db \<Rightarrow> pg_error + db" where
  "delete_post_votes auth_uid cond d =
     (case fire_deletes (filter (visible_for_delete auth_uid cond) (post_votes d)) (posts d) of
        Inl e \<Rightarrow> Inl e
      | Inr ps \<Rightarrow>
          Inr (d\<lparr>posts := ps,
                post_votes := filter (\<lambda>v. \<not> visible_for_delete auth_uid cond v) (post_votes d)\<rparr>))"

text \<open>
  \<open>INSERT INTO posts\<close>: the policy "Members can create posts"
  (\<open>auth.uid() = user_id AND is_club_member(auth.uid(), club_id)\<close>), on a row whose \<open>score\<close>
  is an \<open>INTEGER\<close> (0 when the client gives none), then the primary key and the two
  foreign keys.
\<close>

definition insert_post :: "uuid option \<Rightarrow> post \<Rightarrow> db \<Rightarrow> pg_error + db" where
  "insert_post auth_uid new d =
     (if \<not> int4 (score new) then Inl NumericValueOutOfRange
      else case auth_uid of
        None \<Rightarrow> Inl InsufficientPrivilege
      | Some uid \<Rightarrow>
          if \<not> (uid = user_id new \<and> is_club_member d uid (club_id new))
          then Inl InsufficientPrivilege
          else if post_id new \<in> set (map post_id (posts d)) then Inl UniqueViolation
          else if \<not> (club_id new \<in> set (clubs d) \<and> user_id new \<in> set (users d))
          then Inl ForeignKeyViolation
          else Inr (d\<lparr>posts := posts d @ [new]\<rparr>))"

subsection \<open>Transactions on votes\<close>

text \<open>
  A vote transaction is a list of insert and delete statements. It commits when every
  statement succeeds; the first refused statement rolls all of it back.
\<close>

datatype vote_stmt =
  InsertVote "uuid option" post_vote
  | DeleteVotes "uuid option" "post_vote \<Rightarrow> bool"

fun exec_stmt :: "vote_stmt \<Rightarrow> db \<Rightarrow> pg_error + db" where
  "exec_stmt (InsertVote a new) d = insert_post_vote a new d"
| "exec_stmt (DeleteVotes a cond) d = delete_post_votes a cond d"

fun exec_stmts :: "vote_stmt list \<Rightarrow> db \<Rightarrow> pg_error + db" where
  "exec_stmts [] d = Inr d"
| "exec_stmts (s # ss) d =
     (case exec_stmt s d of Inl e \<Rightarrow> Inl e | Inr d' \<Rightarrow> exec_stmts ss d')"

definition transaction :: "vote_stmt list \<Rightarrow> db \<Rightarrow> db" where
  "transaction ss d = (case exec_stmts ss d of Inl e \<Rightarrow> d | Inr d' \<Rightarrow> d')"

definition run_transactions :: "vote_stmt list list \<Rightarrow> db \<Rightarrow> db" where
  "run_transactions txs d = fold transaction txs d"

text \<open>The sum of the values of the votes that exist for a post.\<close>

definition vote_sum :: "post_vote list \<Rightarrow> uuid \<Rightarrow> int" where
  "vote_sum vs pid = sum_list (map vote_value (filter (\<lambda>v. vote_post_id v = pid) vs))"

definition score_invariant :: "db \<Rightarrow> bool" where
  "score_invariant d \<longleftrightarrow> list_all (\<lambda>p. score p = vote_sum (post_votes d) (post_id p)) (posts d)"

text \<open>The row a client inserts: \<open>{ user_id, post_id, vote_value }\<close>.\<close>

definition vote_row :: "uuid \<Rightarrow> uuid \<Rightarrow> int \<Rightarrow> post_vote" where
  "vote_row uid pid x = \<lparr>vote_post_id = pid, vote_value = x, vote_user_id = uid\<rparr>"

subsection \<open>Sample data\<close>

text \<open>A small database: three users, one member of club 1, one post without votes.\<close>

definition example_post :: post where
  "example_post = \<lparr>post_id = 10, club_id = 1, user_id = 1, title = ''Hello'',
     content = None, score = 0, created_at = 1704067200000\<rparr>"

definition example_db :: db where
  "example_db = \<lparr>users = [1, 2, 3], clubs = [1, 2], club_memberships = [(1, 1)],
     posts = [example_post], post_votes = []\<rparr>"

text \<open>The condition of the client's delete: \<open>.eq("user_id", uid).eq("post_id", pid)\<close>.\<close>

definition own_vote :: "uuid \<Rightarrow> uuid \<Rightarrow> post_vote \<Rightarrow> bool" where
  "own_vote uid pid v \<longleftrightarrow> vote_user_id v = uid \<and> vote_post_id v = pid"

definition example_txs :: "vote_stmt list list" where
  "example_txs =
    [[InsertVote (Some 2) (vote_row 2 10 1)],
     [InsertVote (Some 3) (vote_row 3 10 1)],
     [InsertVote (Some 3) (vote_row 3 10 (- 1))],
     [DeleteVotes (Some 2) (own_vote 2 10),
      InsertVote (Some 2) (vote_row 2 10 (- 1))]]"

subsection \<open>Referential integrity and sample votes\<close>

text \<open>
  The two \<open>REFERENCES\<close> constraints of \<open>post_votes\<close>, as a property of a database: every
  vote belongs to a post and to a user that exist.
\<close>

definition references_ok :: "db \<Rightarrow> bool" where
  "references_ok d \<longleftrightarrow>
     list_all (\<lambda>v. vote_post_id v \<in> set (map post_id (posts d))
                  \<and> vote_user_id v \<in> set (users d)) (post_votes d)"

text \<open>The sample database after user 2 has voted +1 on post 10.\<close>

definition voted_db :: db where
  "voted_db = example_db\<lparr>posts := [example_post\<lparr>score := 1\<rparr>],
     post_votes := [vote_row 2 10 1]\<rparr>"

section \<open>The client: feed ranking and voting (MainApp)\<close>

subsection \<open>\<open>Array.prototype.sort\<close> with a comparator\<close>

text \<open>
  \<open>xs.sort(cmp)\<close> is a stable sort (ECMAScript 2019): \<open>a\<close> comes before \<open>b\<close> when
  \<open>cmp(a, b) < 0\<close>, and elements that compare equal keep their order. For a consistent
  comparator that result is unique; the model computes it by stable insertion. The
  comparators of the source are differences of integers (scores, milliseconds), exact in
  JavaScript's numbers.
\<close>

fun insort_cmp :: "('a \<Rightarrow> 'a \<Rightarrow> int) \<Rightarrow> 'a \<Rightarrow> 'a list \<Rightarrow> 'a list" where
  "insort_cmp cmp x [] = [x]"
| "insort_cmp cmp x (y # ys) =
     (if cmp x y \<le> 0 then x # y # ys else y # insort_cmp cmp x ys)"

definition js_sort :: "('a \<Rightarrow> 'a \<Rightarrow> int) \<Rightarrow> 'a list \<Rightarrow> 'a list" where
  "js_sort cmp xs = foldr (insort_cmp cmp) xs []"

subsection \<open>Strings\<close>

text \<open>
  \<open>toLowerCase\<close> on the letters A to Z; every other character is left as it is (the
  case mappings of Unicode beyond ASCII are outside the model). \<open>js_includes s q\<close> is
  \<open>s.includes(q)\<close>: \<open>q\<close> occurs in \<open>s\<close> as a contiguous run of characters.
\<close>

definition to_lower_char :: "char \<Rightarrow> char" where
  "to_lower_char c =
     (case map_of (zip ''ABCDEFGHIJKLMNOPQRSTUVWXYZ'' ''abcdefghijklmnopqrstuvwxyz'') c of
        Some l \<Rightarrow> l
      | None \<Rightarrow> c)"

definition toLowerCase :: "string \<Rightarrow> string" where
  "toLowerCase s = map to_lower_char s"

fun js_includes :: "string \<Rightarrow> string \<Rightarrow> bool" where
  "js_includes [] q \<longleftrightarrow> q = []"
| "js_includes (c # s) q \<longleftrightarrow> prefix q (c # s) \<or> js_includes s q"

subsection \<open>\<open>filteredPosts\<close>\<close>

text \<open>
  The callback of the search filter, on the lowered query \<open>q\<close>:
  \<open>p.title.toLowerCase().includes(q) || p.content?.toLowerCase().includes(q)\<close>.
  A \<open>null\<close> content makes the second operand \<open>undefined\<close>, which is falsy.
\<close>

definition matches_search :: "string \<Rightarrow> post \<Rightarrow> bool" where
  "matches_search q p \<longleftrightarrow>
     js_includes (toLowerCase (title p)) q
     \<or> (case content p of None \<Rightarrow> False | Some c \<Rightarrow> js_includes (toLowerCase c) q)"

text \<open>
  The table \<open>windows\<close>, in milliseconds, and \<open>windows[sort] || Infinity\<close>: a key the table
  does not have gives \<open>undefined\<close>, and no entry is falsy. The keys are the values the
  \<open>select\<close> element offers.
\<close>

datatype js_number = Millis int | Infinity

definition windows :: "(string \<times> js_number) list" where
  "windows =
     [(''top-3m'', Millis (90 * 24 * 60 * 60 * 1000)),
      (''top-6m'', Millis (180 * 24 * 60 * 60 * 1000)),
      (''top-1y'', Millis (365 * 24 * 60 * 60 * 1000)),
      (''top-all'', Infinity)]"

definition window_for :: "string \<Rightarrow> js_number" where
  "window_for sort' = (case map_of windows sort' of Some w \<Rightarrow> w | None \<Rightarrow> Infinity)"

text \<open>\<open>x < window\<close> for an integer \<open>x\<close>.\<close>

fun less_number :: "int \<Rightarrow> js_number \<Rightarrow> bool" where
  "less_number x (Millis w) \<longleftrightarrow> x < w"
| "less_number x Infinity \<longleftrightarrow> True"

text \<open>
  \<open>filteredPosts\<close>, as a function of the state it reads (\<open>posts\<close>, \<open>search\<close>, \<open>sort\<close>, here \<open>sort'\<close>) and
  of \<open>now = Date.now()\<close>. \<open>created_at p\<close> stands for \<open>new Date(p.created_at).getTime()\<close>.
\<close>

definition search_filter :: "string \<Rightarrow> post list \<Rightarrow> post list" where
  "search_filter search ps =
     (if search \<noteq> [] then filter (matches_search (toLowerCase search)) ps else ps)"

definition filteredPosts :: "post list \<Rightarrow> string \<Rightarrow> string \<Rightarrow> int \<Rightarrow> post list" where
  "filteredPosts ps search sort' now =
     (let result = search_filter search ps in
      if sort' = ''new''
      then js_sort (\<lambda>a b. created_at b - created_at a) result
      else
        (let window = window_for sort' in
         js_sort (\<lambda>a b. score b - score a)
           (filter (\<lambda>p. window = Infinity \<or> less_number (now - created_at p) window) result)))"

subsection \<open>What the specification calls a stable sort and a case-insensitive match\<close>

text \<open>
  \<open>ys\<close> is \<open>xs\<close> stably sorted by \<open>key\<close>, descending: the same posts as often, the keys
  never increasing, and the posts of one key in the order they had in \<open>xs\<close>.
\<close>

definition stable_sorted_desc :: "('a \<Rightarrow> int) \<Rightarrow> 'a list \<Rightarrow> 'a list \<Rightarrow> bool" where
  "stable_sorted_desc key xs ys \<longleftrightarrow>
     mset ys = mset xs \<and> sorted (rev (map key ys))
     \<and> (\<forall>k. filter (\<lambda>x. key x = k) ys = filter (\<lambda>x. key x = k) xs)"



text \<open>The posts within a window: all of them when there is none.\<close>

fun in_window :: "int \<Rightarrow> js_number \<Rightarrow> post \<Rightarrow> bool" where
  "in_window now (Millis w) p \<longleftrightarrow> now - created_at p < w"
| "in_window now Infinity p \<longleftrightarrow> True"


subsection \<open>The posts of the specification's example\<close>

definition post_A :: post where
  "post_A = \<lparr>post_id = 1, club_id = 1, user_id = 1, title = ''A'', content = None,
     score = 3, created_at = 1704067200000\<rparr>"

definition post_B :: post where
  "post_B = \<lparr>post_id = 2, club_id = 1, user_id = 1, title = ''B'', content = None,
     score = 5, created_at = 1717200000000\<rparr>"

definition post_C :: post where
  "post_C = \<lparr>post_id = 3, club_id = 1, user_id = 1, title = ''C'', content = Some ''Hello World'',
     score = 1, created_at = 1735689600000\<rparr>"

subsection \<open>\<open>handleVote\<close>\<close>

text \<open>
  The React state \<open>votes\<close> (the acting user's votes, as loaded by \<open>loadVotes\<close>) and \<open>posts\<close>
  (the posts on display, with the scores shown).
\<close>

record app_state =
  votes_st :: "vote list"
  posts_st :: "post list"

text \<open>
  An awaited call of the database client: it resolves to \<open>{ data, error }\<close> and does not
  throw. \<open>handleVote\<close> never reads \<open>error\<close>, so a refused statement leaves the database
  as it was and the handler goes on.
\<close>

definition request :: "(db \<Rightarrow> pg_error + db) \<Rightarrow> db \<Rightarrow> db" where
  "request stmt d = (case stmt d of Inl e \<Rightarrow> d | Inr d' \<Rightarrow> d')"

text \<open>
  \<open>handleVote(postId, value)\<close> for the signed-in user \<open>uid\<close>, on the database and the
  state. The updater functions given to \<open>setVotes\<close> and \<open>setPosts\<close> are applied in the
  order of the calls; \<open>existing\<close> is read from the state the handler was rendered with.
\<close>

definition handleVote :: "uuid \<Rightarrow> uuid \<Rightarrow> int \<Rightarrow> db \<times> app_state \<Rightarrow> db \<times> app_state" where
  "handleVote uid postId value ds =
     (let d = fst ds; st = snd ds in
      case find (\<lambda>v. vote_post_id v = postId) (votes_st st) of
        Some existing \<Rightarrow>
          (let d1 = request (delete_post_votes (Some uid) (own_vote uid postId)) d;
               st1 = st\<lparr>votes_st := filter (\<lambda>v. vote_post_id v \<noteq> postId) (votes_st st)\<rparr>;
               st2 = st1\<lparr>posts_st :=
                       map (\<lambda>p. if post_id p = postId
                                 then p\<lparr>score := score p - vote_value existing\<rparr> else p)
                         (posts_st st1)\<rparr>
           in if vote_value existing \<noteq> value
              then
                (let d2 = request (insert_post_vote (Some uid) (vote_row uid postId value)) d1;
                     st3 = st2\<lparr>votes_st :=
                             votes_st st2 @ [\<lparr>vote_post_id = postId, vote_value = value\<rparr>]\<rparr>;
                     st4 = st3\<lparr>posts_st :=
                             map (\<lambda>p. if post_id p = postId
                                       then p\<lparr>score := score p + value\<rparr> else p)
                               (posts_st st3)\<rparr>
                 in (d2, st4))
              else (d1, st2))
      | None \<Rightarrow>
          (let d1 = request (insert_post_vote (Some uid) (vote_row uid postId value)) d;
               st1 = st\<lparr>votes_st :=
                       votes_st st @ [\<lparr>vote_post_id = postId, vote_value = value\<rparr>]\<rparr>;
               st2 = st1\<lparr>posts_st :=
                       map (\<lambda>p. if post_id p = postId
                                 then p\<lparr>score := score p + value\<rparr> else p)
                         (posts_st st1)\<rparr>
           in (d1, st2)))"

text \<open>The state of user 2 looking at the sample database after the vote +1 on post 10.\<close>

definition voted_state :: app_state where
  "voted_state = \<lparr>votes_st = [\<lparr>vote_post_id = 10, vote_value = 1\<rparr>],
     posts_st = [example_post\<lparr>score := 1\<rparr>]\<rparr>"


section \<open>The score invariant\<close>

lemma update_score_Inr:
  "update_score pid e ps = Inr ps' \<Longrightarrow>
     ps' = map (\<lambda>p. if post_id p = pid then p\<lparr>score := e (score p)\<rparr> else p) ps"
  by (simp add: update_score_def split: if_splits)

lemma vote_sum_append: "vote_sum (vs @ ws) pid = vote_sum vs pid + vote_sum ws pid"
  by (simp add: vote_sum_def)

lemma vote_sum_split:
  "vote_sum (filter Q vs) pid + vote_sum (filter (\<lambda>v. \<not> Q v) vs) pid = vote_sum vs pid"
  by (induction vs) (auto simp: vote_sum_def)

lemma fire_deletes_Inr:
  "fire_deletes olds ps = Inr ps' \<Longrightarrow>
     ps' = map (\<lambda>p. p\<lparr>score := score p - vote_sum olds (post_id p)\<rparr>) ps"
proof (induction olds arbitrary: ps)
  case Nil
  then show ?case by (simp add: vote_sum_def)
next
  case (Cons old olds)
  from Cons.prems obtain ps1 where
    s1: "update_score (vote_post_id old) (\<lambda>s. s - vote_value old) ps = Inr ps1"
    and s2: "fire_deletes olds ps1 = Inr ps'"
    by (auto split: sum.splits)
  from Cons.IH [OF s2] update_score_Inr [OF s1] show ?case
    by (auto simp: vote_sum_def)
qed

lemma insert_post_vote_invariant:
  assumes "score_invariant d" and "insert_post_vote a new d = Inr d'"
  shows "score_invariant d'"
proof -
  from assms(2) obtain ps where
    u: "apply_delta (vote_post_id new) (vote_value new) (posts d) = Inr ps"
    and d': "d' = d\<lparr>posts := ps, post_votes := post_votes d @ [new]\<rparr>"
    by (auto simp: insert_post_vote_def split: option.splits if_splits sum.splits)
  from u have ps: "ps = map (\<lambda>p. if post_id p = vote_post_id new
      then p\<lparr>score := score p + vote_value new\<rparr> else p) (posts d)"
    unfolding apply_delta_def by (rule update_score_Inr)
  from assms(1) show ?thesis
    by (auto simp: score_invariant_def d' ps list_all_iff vote_sum_def)
qed

lemma delete_post_votes_invariant:
  assumes "score_invariant d" and "delete_post_votes a cond d = Inr d'"
  shows "score_invariant d'"
proof -
  let ?Q = "visible_for_delete a cond"
  from assms(2) obtain ps where
    f: "fire_deletes (filter ?Q (post_votes d)) (posts d) = Inr ps"
    and d': "d' = d\<lparr>posts := ps, post_votes := filter (\<lambda>v. \<not> ?Q v) (post_votes d)\<rparr>"
    by (auto simp: delete_post_votes_def split: sum.splits)
  note ps = fire_deletes_Inr [OF f]
  have "vote_sum (post_votes d) pid - vote_sum (filter ?Q (post_votes d)) pid
      = vote_sum (filter (\<lambda>v. \<not> ?Q v) (post_votes d)) pid" for pid
    using vote_sum_split [of ?Q "post_votes d" pid] by simp
  with assms(1) show ?thesis
    by (auto simp: score_invariant_def d' ps list_all_iff)
qed

lemma exec_stmt_invariant:
  "score_invariant d \<Longrightarrow> exec_stmt s d = Inr d' \<Longrightarrow> score_invariant d'"
  by (cases s) (auto intro: insert_post_vote_invariant delete_post_votes_invariant)

lemma exec_stmts_invariant:
  "score_invariant d \<Longrightarrow> exec_stmts ss d = Inr d' \<Longrightarrow> score_invariant d'"
proof (induction ss arbitrary: d)
  case Nil
  then show ?case by simp
next
  case (Cons s ss)
  then show ?case
    by (auto split: sum.splits dest: exec_stmt_invariant)
qed

lemma transaction_invariant: "score_invariant d \<Longrightarrow> score_invariant (transaction ss d)"
  by (auto simp: transaction_def split: sum.splits dest: exec_stmts_invariant)

lemma run_transactions_invariant:
  "score_invariant d \<Longrightarrow> score_invariant (run_transactions txs d)"
  unfolding run_transactions_def
  by (induction txs arbitrary: d) (auto intro: transaction_invariant)

text \<open>Posts created with the default score 0, before any vote, satisfy the invariant.\<close>

lemma score_invariant_fresh:
  "post_votes d = [] \<Longrightarrow> list_all (\<lambda>p. score p = 0) (posts d) \<Longrightarrow> score_invariant d"
  by (simp add: score_invariant_def vote_sum_def)

lemma example_run:
  "map score (posts (run_transactions example_txs example_db)) = [0]
   \<and> map vote_value (post_votes (run_transactions example_txs example_db)) = [1, - 1]"
  by (simp add: example_txs_def example_db_def example_post_def run_transactions_def
      transaction_def insert_post_vote_def delete_post_votes_def has_voted_on_post_def
      apply_delta_def update_score_def int4_def visible_for_delete_def own_vote_def
      vote_row_def)

text \<open>
  C1. When every post's stored score is the sum of the values of the votes that exist for
  it, the same holds after any sequence of vote transactions (each a list of inserts and
  deletes that commits as a whole or is rolled back), and after every single insert and
  every single delete that succeeds: the trigger keeps score and votes in step.
\<close>

theorem score_invariant_maintained:
  assumes "score_invariant d"
  shows "score_invariant (run_transactions txs d)
    \<and> (\<forall>a new d'. insert_post_vote a new d = Inr d' \<longrightarrow> score_invariant d')
    \<and> (\<forall>a cond d'. delete_post_votes a cond d = Inr d' \<longrightarrow> score_invariant d')"
  using assms run_transactions_invariant insert_post_vote_invariant delete_post_votes_invariant
  by blast

theorem score_invariant_maintained_witness:
  "score_invariant example_db
   \<and> score_invariant (run_transactions example_txs example_db)
   \<and> map score (posts (run_transactions example_txs example_db)) = [0]
   \<and> map vote_value (post_votes (run_transactions example_txs example_db)) = [1, - 1]"
proof -
  have h: "score_invariant example_db"
    by (rule score_invariant_fresh) (simp_all add: example_db_def example_post_def)
  from score_invariant_maintained [OF h, of example_txs] h example_run show ?thesis
    by simp
qed

section \<open>Voting and posting under the policies\<close>

lemma has_voted_iff:
  "has_voted_on_post d uid pid \<longleftrightarrow>
     (\<exists>v\<in>set (post_votes d). vote_user_id v = uid \<and> vote_post_id v = pid)"
  by (simp add: has_voted_on_post_def list_ex_iff)

lemma update_score_post_ids:
  "update_score pid e ps = Inr ps' \<Longrightarrow> map post_id ps' = map post_id ps"
  by (auto simp: update_score_def split: if_splits)

lemma fire_deletes_post_ids:
  "fire_deletes olds ps = Inr ps' \<Longrightarrow> map post_id ps' = map post_id ps"
proof (induction olds arbitrary: ps)
  case Nil
  then show ?case by simp
next
  case (Cons old olds)
  then show ?case
    by (auto split: sum.splits dest: update_score_post_ids)
qed

lemma insert_post_vote_rejects_second:
  "int4 (vote_value new) \<Longrightarrow> has_voted_on_post d uid (vote_post_id new) \<Longrightarrow>
     insert_post_vote (Some uid) new d = Inl InsufficientPrivilege"
  by (simp add: insert_post_vote_def)

lemma insert_post_vote_succeeds:
  assumes "vote_user_id new = uid" and "\<not> has_voted_on_post d uid (vote_post_id new)"
    and "vote_value new = 1 \<or> vote_value new = - 1"
    and "vote_post_id new \<in> set (map post_id (posts d))" and "uid \<in> set (users d)"
    and "\<forall>p\<in>set (posts d). post_id p = vote_post_id new \<longrightarrow> int4 (score p + vote_value new)"
  shows "\<exists>d'. insert_post_vote (Some uid) new d = Inr d'
           \<and> post_votes d' = post_votes d @ [new] \<and> has_voted_on_post d' uid (vote_post_id new)"
proof -
  from assms(6) have "list_all (\<lambda>p. post_id p \<noteq> vote_post_id new
      \<or> int4 (score p + vote_value new)) (posts d)"
    by (auto simp: list_all_iff)
  then obtain ps where ps: "apply_delta (vote_post_id new) (vote_value new) (posts d) = Inr ps"
    by (simp add: apply_delta_def update_score_def)
  from assms(1,2) have nodup: "\<not> list_ex (\<lambda>v. vote_user_id v = vote_user_id new
      \<and> vote_post_id v = vote_post_id new) (post_votes d)"
    by (simp add: has_voted_on_post_def)
  from assms(3) have "int4 (vote_value new)"
    by (auto simp: int4_def)
  with assms(1-5) ps nodup
  have "insert_post_vote (Some uid) new d = Inr (d\<lparr>posts := ps, post_votes := post_votes d @ [new]\<rparr>)"
    unfolding insert_post_vote_def by auto
  with assms(1) show ?thesis
    by (simp add: has_voted_iff)
qed

lemma delete_own_vote_clears:
  assumes "delete_post_votes (Some uid) (own_vote uid pid) d = Inr d1"
  shows "\<not> has_voted_on_post d1 uid pid" and "map post_id (posts d1) = map post_id (posts d)"
    and "users d1 = users d"
proof -
  from assms obtain ps where
    f: "fire_deletes (filter (visible_for_delete (Some uid) (own_vote uid pid)) (post_votes d))
          (posts d) = Inr ps"
    and d1: "d1 = d\<lparr>posts := ps, post_votes :=
          filter (\<lambda>v. \<not> visible_for_delete (Some uid) (own_vote uid pid) v) (post_votes d)\<rparr>"
    by (auto simp: delete_post_votes_def split: sum.splits)
  show "\<not> has_voted_on_post d1 uid pid"
    by (auto simp: d1 has_voted_iff visible_for_delete_def own_vote_def)
  show "map post_id (posts d1) = map post_id (posts d)"
    using fire_deletes_post_ids [OF f] by (simp add: d1)
  show "users d1 = users d"
    by (simp add: d1)
qed

text \<open>
  C2 (as amended). When user \<open>uid\<close> already has a vote on post \<open>pid\<close>, a plain insert of a
  second vote (of value +1 or -1) by \<open>uid\<close> on \<open>pid\<close> is refused: the insert policy
  "Members can vote" fails on \<open>NOT has_voted_on_post\<close>, which is a row-level-security
  violation (\<open>InsufficientPrivilege\<close>), the condition a non-member's post ends in; the
  \<open>UNIQUE(user_id, post_id)\<close> constraint behind it is never reached. Once the client's
  delete has removed the vote, the insert by \<open>uid\<close> on \<open>pid\<close> succeeds for either value,
  the new score being an \<open>INTEGER\<close>.
\<close>

theorem second_vote_refused_by_policy:
  assumes "has_voted_on_post d uid pid" and "references_ok d" and "x = 1 \<or> x = - 1"
  shows "insert_post_vote (Some uid) (vote_row uid pid x) d = Inl InsufficientPrivilege
    \<and> (\<forall>d1. delete_post_votes (Some uid) (own_vote uid pid) d = Inr d1
          \<and> list_all (\<lambda>p. post_id p \<noteq> pid \<or> int4 (score p + x)) (posts d1)
          \<longrightarrow> (\<exists>d2. insert_post_vote (Some uid) (vote_row uid pid x) d1 = Inr d2
                \<and> has_voted_on_post d2 uid pid))"
proof (intro conjI allI impI)
  from assms(3) have "int4 (vote_value (vote_row uid pid x))"
    by (auto simp: vote_row_def int4_def)
  with assms(1)
  show "insert_post_vote (Some uid) (vote_row uid pid x) d = Inl InsufficientPrivilege"
    by (intro insert_post_vote_rejects_second) (simp_all add: vote_row_def)
next
  fix d1
  assume a: "delete_post_votes (Some uid) (own_vote uid pid) d = Inr d1
          \<and> list_all (\<lambda>p. post_id p \<noteq> pid \<or> int4 (score p + x)) (posts d1)"
  from assms have ex: "pid \<in> set (map post_id (posts d))" "uid \<in> set (users d)"
    by (auto simp: has_voted_iff references_ok_def list_all_iff)
  note c = delete_own_vote_clears [of uid pid d d1]
  from a c ex assms(3)
  have "\<exists>d'. insert_post_vote (Some uid) (vote_row uid pid x) d1 = Inr d'
           \<and> post_votes d' = post_votes d1 @ [vote_row uid pid x]
           \<and> has_voted_on_post d' uid (vote_post_id (vote_row uid pid x))"
    by (intro insert_post_vote_succeeds) (auto simp: vote_row_def list_all_iff)
  then show "\<exists>d2. insert_post_vote (Some uid) (vote_row uid pid x) d1 = Inr d2
                \<and> has_voted_on_post d2 uid pid"
    by (auto simp: vote_row_def)
qed

theorem second_vote_refused_by_policy_witness:
  "has_voted_on_post voted_db 2 10 \<and> references_ok voted_db
   \<and> insert_post_vote (Some 2) (vote_row 2 10 (- 1)) voted_db = Inl InsufficientPrivilege
   \<and> delete_post_votes (Some 2) (own_vote 2 10) voted_db = Inr example_db
   \<and> (\<exists>d2. insert_post_vote (Some 2) (vote_row 2 10 (- 1)) example_db = Inr d2
         \<and> has_voted_on_post d2 2 10)"
proof -
  have h1: "has_voted_on_post voted_db 2 10"
    by (simp add: voted_db_def example_db_def vote_row_def has_voted_on_post_def)
  have h2: "references_ok voted_db"
    by (simp add: voted_db_def example_db_def example_post_def vote_row_def references_ok_def)
  have h3: "(- 1 :: int) = 1 \<or> (- 1 :: int) = - 1"
    by simp
  have h4: "delete_post_votes (Some 2) (own_vote 2 10) voted_db = Inr example_db"
    by (simp add: voted_db_def example_db_def example_post_def vote_row_def
        delete_post_votes_def visible_for_delete_def own_vote_def update_score_def int4_def)
  have h5: "list_all (\<lambda>p. post_id p \<noteq> 10 \<or> int4 (score p + (- 1))) (posts example_db)"
    by (simp add: example_db_def example_post_def int4_def)
  from second_vote_refused_by_policy [OF h1 h2 h3] h1 h2 h4 h5 show ?thesis
    by simp
qed

text \<open>
  C2 as the specification words it asks for a conflict, an error of another kind than the
  authorization error of a post by a non-member or of a vote cast in another user's name.
  The database has the unique violation for that. At the sample database the second vote
  of user 2 on post 10 ends in the policy violation instead, as do the vote that user 3
  casts in the name of user 1 and the post of user 2, who is no member of club 1.
\<close>

theorem second_vote_conflict_counterexample:
  "has_voted_on_post voted_db 2 10
   \<and> insert_post_vote (Some 2) (vote_row 2 10 (- 1)) voted_db = Inl InsufficientPrivilege
   \<and> insert_post_vote (Some 2) (vote_row 2 10 (- 1)) voted_db \<noteq> Inl UniqueViolation
   \<and> insert_post_vote (Some 3) (vote_row 1 10 1) voted_db = Inl InsufficientPrivilege
   \<and> insert_post (Some 2) (example_post\<lparr>post_id := 11, user_id := 2\<rparr>) voted_db
       = Inl InsufficientPrivilege"
  by (simp add: voted_db_def example_db_def example_post_def vote_row_def has_voted_on_post_def
      insert_post_vote_def insert_post_def is_club_member_def int4_def)

lemma insert_post_needs_membership:
  "int4 (score new) \<Longrightarrow> \<not> is_club_member d uid (club_id new) \<Longrightarrow>
     insert_post (Some uid) new d = Inl InsufficientPrivilege"
  by (simp add: insert_post_def)

text \<open>
  C3. Membership is no precondition of voting: an authenticated, existing user who has not
  voted on an existing post casts a vote of value +1 or -1 with success whatever the
  membership table holds (also when it holds nothing), the new score being an \<open>INTEGER\<close>.
  Membership is a precondition of posting: a post (its score an \<open>INTEGER\<close>) by a user who
  is not a member of the post's club is refused with the policy violation.
\<close>

theorem voting_open_posting_members_only:
  "(\<not> has_voted_on_post d uid pid \<and> (x = 1 \<or> x = - 1)
      \<and> pid \<in> set (map post_id (posts d)) \<and> uid \<in> set (users d)
      \<and> list_all (\<lambda>p. post_id p \<noteq> pid \<or> int4 (score p + x)) (posts d)
     \<longrightarrow> (\<exists>d'. insert_post_vote (Some uid) (vote_row uid pid x) (d\<lparr>club_memberships := ms\<rparr>) = Inr d'
            \<and> has_voted_on_post d' uid pid))
   \<and> (int4 (score new) \<and> \<not> is_club_member d uid (club_id new)
     \<longrightarrow> insert_post (Some uid) new d = Inl InsufficientPrivilege)"
proof (intro conjI impI)
  assume a: "\<not> has_voted_on_post d uid pid \<and> (x = 1 \<or> x = - 1)
      \<and> pid \<in> set (map post_id (posts d)) \<and> uid \<in> set (users d)
      \<and> list_all (\<lambda>p. post_id p \<noteq> pid \<or> int4 (score p + x)) (posts d)"
  let ?d = "d\<lparr>club_memberships := ms\<rparr>"
  from a have "\<exists>d'. insert_post_vote (Some uid) (vote_row uid pid x) ?d = Inr d'
           \<and> post_votes d' = post_votes ?d @ [vote_row uid pid x]
           \<and> has_voted_on_post d' uid (vote_post_id (vote_row uid pid x))"
    by (intro insert_post_vote_succeeds)
      (auto simp: vote_row_def list_all_iff has_voted_on_post_def)
  then show "\<exists>d'. insert_post_vote (Some uid) (vote_row uid pid x) ?d = Inr d'
            \<and> has_voted_on_post d' uid pid"
    by (auto simp: vote_row_def)
next
  assume "int4 (score new) \<and> \<not> is_club_member d uid (club_id new)"
  then show "insert_post (Some uid) new d = Inl InsufficientPrivilege"
    by (simp add: insert_post_needs_membership)
qed

theorem voting_open_posting_members_only_witness:
  "\<not> is_club_member example_db 2 1 \<and> club_id example_post = 1
   \<and> \<not> has_voted_on_post example_db 2 10
   \<and> (\<exists>d'. insert_post_vote (Some 2) (vote_row 2 10 1) (example_db\<lparr>club_memberships := []\<rparr>) = Inr d'
            \<and> has_voted_on_post d' 2 10)
   \<and> insert_post (Some 2) (example_post\<lparr>post_id := 11, user_id := 2\<rparr>) example_db
       = Inl InsufficientPrivilege"
proof -
  have h1: "\<not> is_club_member example_db 2 1" "club_id example_post = 1"
    "\<not> has_voted_on_post example_db 2 10"
    by (simp_all add: example_db_def example_post_def is_club_member_def has_voted_on_post_def)
  have h2: "10 \<in> set (map post_id (posts example_db))" "2 \<in> set (users example_db)"
    "list_all (\<lambda>p. post_id p \<noteq> 10 \<or> int4 (score p + 1)) (posts example_db)"
    by (simp_all add: example_db_def example_post_def int4_def)
  have h3: "club_id (example_post\<lparr>post_id := 11, user_id := 2\<rparr>) = 1"
    "int4 (score (example_post\<lparr>post_id := 11, user_id := 2\<rparr>))"
    by (simp_all add: example_post_def int4_def)
  from voting_open_posting_members_only
    [of example_db 2 10 1 "[]" "example_post\<lparr>post_id := 11, user_id := 2\<rparr>"] h1 h2 h3
  show ?thesis
    by simp
qed

section \<open>Score deltas add up\<close>

lemma range_all_iff:
  "list_all (\<lambda>p. post_id p \<noteq> pid \<or> R p) ps \<longleftrightarrow> (\<forall>p\<in>set ps. post_id p = pid \<longrightarrow> R p)"
  unfolding list_all_iff by blast

lemma apply_delta_eq:
  "apply_delta pid x ps =
     (if (\<forall>p\<in>set ps. post_id p = pid \<longrightarrow> int4 (score p + x))
      then Inr (map (\<lambda>p. if post_id p = pid then p\<lparr>score := score p + x\<rparr> else p) ps)
      else Inl NumericValueOutOfRange)"
  unfolding apply_delta_def update_score_def range_all_iff ..




lemma apply_delta_twice:
  assumes "\<forall>p\<in>set ps. post_id p = pid \<longrightarrow> int4 (score p + x) \<and> int4 (score p + x + y)"
  shows "apply_delta pid x ps
           = Inr (map (\<lambda>p. if post_id p = pid then p\<lparr>score := score p + x\<rparr> else p) ps)"
    and "apply_delta pid y (map (\<lambda>p. if post_id p = pid then p\<lparr>score := score p + x\<rparr> else p) ps)
           = Inr (map (\<lambda>p. if post_id p = pid then p\<lparr>score := score p + x + y\<rparr> else p) ps)"
proof -
  let ?up = "\<lambda>p. if post_id p = pid then p\<lparr>score := score p + x\<rparr> else p"
  show "apply_delta pid x ps = Inr (map ?up ps)"
    using assms by (simp add: apply_delta_eq)
  have r: "\<forall>q\<in>set (map ?up ps). post_id q = pid \<longrightarrow> int4 (score q + y)"
  proof (intro ballI impI)
    fix q
    assume "q \<in> set (map ?up ps)" and q: "post_id q = pid"
    then obtain p where p: "p \<in> set ps" "q = ?up p"
      unfolding set_map by blast
    show "int4 (score q + y)"
    proof (cases "post_id p = pid")
      case True
      with p assms show ?thesis by simp
    next
      case False
      with p q show ?thesis by simp
    qed
  qed
  have m: "map (\<lambda>q. if post_id q = pid then q\<lparr>score := score q + y\<rparr> else q) (map ?up ps)
      = map (\<lambda>p. if post_id p = pid then p\<lparr>score := score p + x + y\<rparr> else p) ps"
    by simp
  from r have "apply_delta pid y (map ?up ps)
      = Inr (map (\<lambda>q. if post_id q = pid then q\<lparr>score := score q + y\<rparr> else q) (map ?up ps))"
    by (simp only: apply_delta_eq [of pid y "map ?up ps"] if_P [OF r])
  with m show "apply_delta pid y (map ?up ps)
      = Inr (map (\<lambda>p. if post_id p = pid then p\<lparr>score := score p + x + y\<rparr> else p) ps)"
    by (simp only:)
qed

text \<open>
  C7. The trigger's update is an addition, not an assignment. For deltas \<open>d1\<close>, \<open>d2\<close> on
  the posts with key \<open>pid\<close>, as long as the scores reached stay \<open>INTEGER\<close>s, applying \<open>d1\<close>
  then \<open>d2\<close> and applying \<open>d2\<close> then \<open>d1\<close> both succeed and end in the same table, in which
  the score is the old score plus both deltas.
\<close>

theorem apply_delta_commutes:
  assumes "list_all (\<lambda>p. post_id p \<noteq> pid
      \<or> int4 (score p + d1) \<and> int4 (score p + d2) \<and> int4 (score p + d1 + d2)) ps"
  shows "\<exists>ps1 ps2 ps'. apply_delta pid d1 ps = Inr ps1 \<and> apply_delta pid d2 ps1 = Inr ps'
      \<and> apply_delta pid d2 ps = Inr ps2 \<and> apply_delta pid d1 ps2 = Inr ps'
      \<and> ps' = map (\<lambda>p. if post_id p = pid then p\<lparr>score := score p + d1 + d2\<rparr> else p) ps"
proof -
  have sw: "s + d2 + d1 = s + d1 + d2" for s :: int
    by simp
  from assms have r12: "\<forall>p\<in>set ps. post_id p = pid \<longrightarrow>
      int4 (score p + d1) \<and> int4 (score p + d1 + d2)"
    and r21: "\<forall>p\<in>set ps. post_id p = pid \<longrightarrow>
      int4 (score p + d2) \<and> int4 (score p + d2 + d1)"
    by (auto simp: list_all_iff sw)
  from apply_delta_twice [OF r12] apply_delta_twice [OF r21] show ?thesis
    by (simp only: sw) blast
qed

theorem apply_delta_commutes_witness:
  "list_all (\<lambda>p. post_id p \<noteq> 10
      \<or> int4 (score p + 1) \<and> int4 (score p + (- 1)) \<and> int4 (score p + 1 + (- 1))) [example_post]
   \<and> (\<exists>ps1 ps2 ps'. apply_delta 10 1 [example_post] = Inr ps1 \<and> apply_delta 10 (- 1) ps1 = Inr ps'
      \<and> apply_delta 10 (- 1) [example_post] = Inr ps2 \<and> apply_delta 10 1 ps2 = Inr ps'
      \<and> ps' = [example_post])"
proof -
  have h: "list_all (\<lambda>p. post_id p \<noteq> 10
      \<or> int4 (score p + 1) \<and> int4 (score p + (- 1)) \<and> int4 (score p + 1 + (- 1))) [example_post]"
    by (simp add: example_post_def int4_def)
  have e: "map (\<lambda>p. if post_id p = 10 then p\<lparr>score := score p + 1 + (- 1)\<rparr> else p) [example_post]
       = [example_post]"
    by (simp add: example_post_def)
  from apply_delta_commutes [OF h] h show ?thesis
    unfolding e by blast
qed

section \<open>Feed ranking\<close>

subsection \<open>The two comparators sort stably, descending\<close>

lemma insort_cmp_desc:
  "insort_cmp (\<lambda>a b. key b - key a) x ys = insort_key (\<lambda>p. - key p) x ys"
  by (induction ys) simp_all

lemma js_sort_desc: "js_sort (\<lambda>a b. key b - key a) xs = sort_key (\<lambda>p. - key p) xs"
  by (induction xs) (simp_all add: js_sort_def insort_cmp_desc)

lemma sorted_uminus_rev: "sorted (map (\<lambda>p. - key p) ys) \<longleftrightarrow> sorted (rev (map key ys))"
  for key :: "'a \<Rightarrow> int"
  by (simp add: sorted_map sorted_wrt_rev sorted_wrt_map flip: rev_map)

lemma stable_sorted_desc_sort_key: "stable_sorted_desc key xs (sort_key (\<lambda>p. - key p) xs)"
proof -
  have "sorted (map (\<lambda>p. - key p) (sort_key (\<lambda>p. - key p) xs))"
    by (rule sorted_sort_key)
  then have s: "sorted (rev (map key (sort_key (\<lambda>p. - key p) xs)))"
    by (simp only: sorted_uminus_rev)
  have "filter (\<lambda>x. key x = k) (sort_key (\<lambda>p. - key p) xs) = filter (\<lambda>x. key x = k) xs" for k
    using sort_key_stable [of "\<lambda>p. - key p" "- k" xs] by simp
  with s show ?thesis
    by (simp add: stable_sorted_desc_def)
qed

lemma stable_sorted_desc_unique:
  assumes "stable_sorted_desc key xs ys"
  shows "ys = sort_key (\<lambda>p. - key p) xs"
proof (rule sym, rule properties_for_sort_key)
  from assms show "mset ys = mset xs"
    by (simp add: stable_sorted_desc_def)
  from assms have "sorted (rev (map key ys))"
    by (simp add: stable_sorted_desc_def)
  then show "sorted (map (\<lambda>p. - key p) ys)"
    by (simp only: sorted_uminus_rev)
  fix k
  from assms have "filter (\<lambda>x. key x = key k) ys = filter (\<lambda>x. key x = key k) xs"
    by (simp add: stable_sorted_desc_def)
  then show "filter (\<lambda>x. - key k = - key x) ys = filter (\<lambda>x. - key k = - key x) xs"
    by (simp add: eq_commute)
qed

lemma window_callback:
  "(window = Infinity \<or> less_number (now - created_at p) window) \<longleftrightarrow> in_window now window p"
  by (cases window) simp_all

lemma filteredPosts_new:
  "filteredPosts ps search ''new'' now
     = sort_key (\<lambda>p. - created_at p) (search_filter search ps)"
  by (simp add: filteredPosts_def js_sort_desc)

lemma filteredPosts_top:
  "sort' \<noteq> ''new'' \<Longrightarrow> filteredPosts ps search sort' now
     = sort_key (\<lambda>p. - score p) (filter (in_window now (window_for sort')) (search_filter search ps))"
  by (simp add: filteredPosts_def js_sort_desc window_callback)

lemma window_for_values:
  "window_for ''top-3m'' = Millis 7776000000"
  "window_for ''top-6m'' = Millis 15552000000"
  "window_for ''top-1y'' = Millis 31536000000"
  "window_for ''top-all'' = Infinity"
  by (simp_all add: window_for_def windows_def)

text \<open>
  C4. In each of the modes Top (3 months, 6 months, 1 year, all time) and for every list
  of posts and every \<open>now\<close>, \<open>filteredPosts\<close> keeps exactly the posts younger than the
  mode's window (\<open>now - created_at < window\<close>; all of them in the all-time mode) and returns
  them stably sorted by score, descending. A search string only selects the posts
  beforehand.
\<close>

theorem top_mode_filters_then_sorts:
  assumes "sort' \<in> {''top-3m'', ''top-6m'', ''top-1y'', ''top-all''}"
  shows "stable_sorted_desc score
           (filter (in_window now (window_for sort')) ps) (filteredPosts ps [] sort' now)
    \<and> (\<forall>w. window_for sort' = Millis w \<longrightarrow>
          set (filteredPosts ps [] sort' now) = {p \<in> set ps. now - created_at p < w})
    \<and> (sort' = ''top-all'' \<longrightarrow> mset (filteredPosts ps [] sort' now) = mset ps)
    \<and> filteredPosts ps search sort' now = filteredPosts (search_filter search ps) [] sort' now"
proof -
  from assms have n: "sort' \<noteq> ''new''"
    by auto
  have e: "search_filter [] qs = qs" for qs
    by (simp add: search_filter_def)
  have 1: "stable_sorted_desc score
           (filter (in_window now (window_for sort')) ps) (filteredPosts ps [] sort' now)"
    by (simp add: filteredPosts_top [OF n] e stable_sorted_desc_sort_key)
  have 2: "set (filteredPosts ps [] sort' now) = {p \<in> set ps. now - created_at p < w}"
    if "window_for sort' = Millis w" for w
    using that by (simp add: filteredPosts_top [OF n] e)
  have 3: "mset (filteredPosts ps [] sort' now) = mset ps" if "sort' = ''top-all''"
    using that by (simp add: filteredPosts_top e window_for_values)
  have 4: "filteredPosts ps search sort' now = filteredPosts (search_filter search ps) [] sort' now"
    by (simp add: filteredPosts_top [OF n] e)
  from 1 2 3 4 show ?thesis
    by blast
qed

theorem top_mode_filters_then_sorts_witness:
  "''top-3m'' \<in> {''top-3m'', ''top-6m'', ''top-1y'', ''top-all''}
   \<and> filteredPosts [post_A, post_B, post_C] [] ''top-3m'' 1735689600001 = [post_C]
   \<and> stable_sorted_desc score
        (filter (in_window 1735689600001 (window_for ''top-3m'')) [post_A, post_B, post_C])
        (filteredPosts [post_A, post_B, post_C] [] ''top-3m'' 1735689600001)
   \<and> set (filteredPosts [post_A, post_B, post_C] [] ''top-3m'' 1735689600001)
       = {p \<in> set [post_A, post_B, post_C]. 1735689600001 - created_at p < 7776000000}"
proof -
  have h: "''top-3m'' \<in> {''top-3m'', ''top-6m'', ''top-1y'', ''top-all''}"
    by simp
  have v: "filteredPosts [post_A, post_B, post_C] [] ''top-3m'' 1735689600001 = [post_C]"
    by (simp add: filteredPosts_def search_filter_def js_sort_def post_A_def post_B_def
        post_C_def window_for_def windows_def)
  note t = top_mode_filters_then_sorts [OF h, of 1735689600001 "[post_A, post_B, post_C]" "[]"]
  from t have a: "stable_sorted_desc score
        (filter (in_window 1735689600001 (window_for ''top-3m'')) [post_A, post_B, post_C])
        (filteredPosts [post_A, post_B, post_C] [] ''top-3m'' 1735689600001)"
    by (rule conjunct1)
  from t window_for_values(1)
  have b: "set (filteredPosts [post_A, post_B, post_C] [] ''top-3m'' 1735689600001)
       = {p \<in> set [post_A, post_B, post_C]. 1735689600001 - created_at p < 7776000000}"
    by blast
  from h v a b show ?thesis
    by (intro conjI)
qed

text \<open>
  C5. In the mode New, \<open>filteredPosts\<close> returns the posts it is given (those the search
  selects), as often as they occur, stably sorted by \<open>created_at\<close>, descending. For the
  posts A (score 3, 2024-01-01), B (score 5, 2024-06-01) and C (score 1, 2025-01-01) the
  mode New yields C, B, A and the mode Top (all time) yields B, A, C.
\<close>

theorem new_mode_sorts_by_created_at:
  "stable_sorted_desc created_at (search_filter search ps) (filteredPosts ps search ''new'' now)
   \<and> stable_sorted_desc created_at ps (filteredPosts ps [] ''new'' now)
   \<and> mset (filteredPosts ps [] ''new'' now) = mset ps
   \<and> filteredPosts [post_A, post_B, post_C] [] ''new'' now = [post_C, post_B, post_A]
   \<and> filteredPosts [post_A, post_B, post_C] [] ''top-all'' now = [post_B, post_A, post_C]"
proof -
  have e: "search_filter [] qs = qs" for qs
    by (simp add: search_filter_def)
  have 1: "stable_sorted_desc created_at (search_filter search qs) (filteredPosts qs search ''new'' now)"
    for search qs
    by (simp add: filteredPosts_new stable_sorted_desc_sort_key)
  have 2: "mset (filteredPosts ps [] ''new'' now) = mset ps"
    by (simp add: filteredPosts_new e)
  have 3: "filteredPosts [post_A, post_B, post_C] [] ''new'' now = [post_C, post_B, post_A]"
    by (simp add: filteredPosts_def search_filter_def js_sort_def post_A_def post_B_def post_C_def)
  have 4: "filteredPosts [post_A, post_B, post_C] [] ''top-all'' now = [post_B, post_A, post_C]"
    by (simp add: filteredPosts_def search_filter_def js_sort_def post_A_def post_B_def
        post_C_def window_for_def windows_def)
  from 1 [of search ps] 1 [of "[]" ps] 2 3 4 show ?thesis
    by (simp only: e simp_thms)
qed

theorem new_mode_sorts_by_created_at_witness:
  "filteredPosts [post_B, post_C, post_A] [] ''new'' 0 = [post_C, post_B, post_A]
   \<and> stable_sorted_desc created_at [post_B, post_C, post_A]
        (filteredPosts [post_B, post_C, post_A] [] ''new'' 0)
   \<and> mset (filteredPosts [post_B, post_C, post_A] [] ''new'' 0) = mset [post_B, post_C, post_A]"
proof -
  have v: "filteredPosts [post_B, post_C, post_A] [] ''new'' 0 = [post_C, post_B, post_A]"
    by (simp add: filteredPosts_def search_filter_def js_sort_def post_A_def post_B_def post_C_def)
  note t = new_mode_sorts_by_created_at [of "[]" "[post_B, post_C, post_A]" 0]
  from t have a: "stable_sorted_desc created_at [post_B, post_C, post_A]
        (filteredPosts [post_B, post_C, post_A] [] ''new'' 0)"
    by blast
  from t have b: "mset (filteredPosts [post_B, post_C, post_A] [] ''new'' 0)
      = mset [post_B, post_C, post_A]"
    by blast
  from v a b show ?thesis
    by (intro conjI)
qed

subsection \<open>Search\<close>






lemma search_filter_empty: "search_filter [] ps = ps"
  by (simp add: search_filter_def)




subsection \<open>The windows\<close>

text \<open>
  C10. The windows are fixed durations in milliseconds: 90, 180 and 365 days. The test is
  strict: a post whose age is exactly the window is left out, one a millisecond younger is
  kept.
\<close>

theorem top_windows_are_fixed_durations:
  "window_for ''top-3m'' = Millis (90 * 24 * 60 * 60 * 1000)
   \<and> window_for ''top-6m'' = Millis (180 * 24 * 60 * 60 * 1000)
   \<and> window_for ''top-1y'' = Millis (365 * 24 * 60 * 60 * 1000)
   \<and> (sort' \<in> {''top-3m'', ''top-6m'', ''top-1y''} \<and> window_for sort' = Millis w
        \<and> now - created_at p = w
       \<longrightarrow> p \<notin> set (filteredPosts ps search sort' now))
   \<and> (sort' \<in> {''top-3m'', ''top-6m'', ''top-1y''} \<and> window_for sort' = Millis w
        \<and> now - created_at p = w - 1 \<and> p \<in> set ps
       \<longrightarrow> p \<in> set (filteredPosts ps [] sort' now))"
proof -
  have 1: "p \<notin> set (filteredPosts ps search sort' now)"
    if "sort' \<in> {''top-3m'', ''top-6m'', ''top-1y''}" "window_for sort' = Millis w"
      "now - created_at p = w"
  proof -
    from that(1) have "sort' \<noteq> ''new''" by auto
    with that(2,3) show ?thesis
      by (simp add: filteredPosts_top)
  qed
  have 2: "p \<in> set (filteredPosts ps [] sort' now)"
    if "sort' \<in> {''top-3m'', ''top-6m'', ''top-1y''}" "window_for sort' = Millis w"
      "now - created_at p = w - 1" "p \<in> set ps"
  proof -
    from that(1) have "sort' \<noteq> ''new''" by auto
    with that(2,3,4) show ?thesis
      by (simp add: filteredPosts_top search_filter_empty)
  qed
  have 3: "window_for ''top-3m'' = Millis (90 * 24 * 60 * 60 * 1000)"
    "window_for ''top-6m'' = Millis (180 * 24 * 60 * 60 * 1000)"
    "window_for ''top-1y'' = Millis (365 * 24 * 60 * 60 * 1000)"
    by (simp_all add: window_for_def windows_def)
  from 1 2 3 show ?thesis
    by blast
qed

theorem top_windows_are_fixed_durations_witness:
  "''top-3m'' \<in> {''top-3m'', ''top-6m'', ''top-1y''}
   \<and> window_for ''top-3m'' = Millis 7776000000
   \<and> 1711843200000 - created_at post_A = 7776000000
   \<and> post_A \<notin> set (filteredPosts [post_A, post_B, post_C] [] ''top-3m'' 1711843200000)
   \<and> 1711843199999 - created_at post_A = 7776000000 - 1
   \<and> post_A \<in> set (filteredPosts [post_A, post_B, post_C] [] ''top-3m'' 1711843199999)"
proof -
  have h: "''top-3m'' \<in> {''top-3m'', ''top-6m'', ''top-1y''}"
    by simp
  have w: "window_for ''top-3m'' = Millis 7776000000"
    by (simp add: window_for_def windows_def)
  have a: "1711843200000 - created_at post_A = 7776000000"
    "1711843199999 - created_at post_A = 7776000000 - 1"
    by (simp_all add: post_A_def)
  have i: "post_A \<in> set [post_A, post_B, post_C]"
    by simp
  from top_windows_are_fixed_durations
    [of "''top-3m''" 7776000000 1711843200000 post_A "[post_A, post_B, post_C]" "[]"] h w a(1)
  have x: "post_A \<notin> set (filteredPosts [post_A, post_B, post_C] [] ''top-3m'' 1711843200000)"
    by blast
  from top_windows_are_fixed_durations
    [of "''top-3m''" 7776000000 1711843199999 post_A "[post_A, post_B, post_C]" "[]"] h w a(2) i
  have y: "post_A \<in> set (filteredPosts [post_A, post_B, post_C] [] ''top-3m'' 1711843199999)"
    by blast
  from h w a x y show ?thesis
    by (intro conjI)
qed

subsection \<open>Reversing the timestamps\<close>









section \<open>The vote handler\<close>

lemma find_filter_none:
  "find (\<lambda>v. vote_post_id v = pid) (filter (\<lambda>v. vote_post_id v \<noteq> pid) vs) = None"
  by (simp add: find_None_iff)

lemma request_delete_own_vote:
  "delete_post_votes (Some uid) (own_vote uid pid) d = Inr d1 \<Longrightarrow>
     request (delete_post_votes (Some uid) (own_vote uid pid)) d = d1
     \<and> \<not> has_voted_on_post d1 uid pid"
  using delete_own_vote_clears(1) [of uid pid d d1] by (simp add: request_def)

text \<open>
  C9. When the state holds a vote of value \<open>v\<close> (+1 or -1) of the user on the post,
  \<open>handleVote\<close> with the same value only deletes: the state has no vote on the post any
  more, the score on display has gone down by \<open>v\<close>, and the database, when it accepts the
  delete, has no vote of the user on the post. With the opposite value \<open>- v\<close> the handler
  deletes and then inserts the new vote, and the score on display has changed by \<open>- 2 v\<close>.
\<close>

theorem handleVote_toggles_or_flips:
  assumes "find (\<lambda>w. vote_post_id w = postId) (votes_st st) = Some existing"
    and "vote_value existing = v" and "v = 1 \<or> v = - 1"
  shows "handleVote uid postId v (d, st)
       = (request (delete_post_votes (Some uid) (own_vote uid postId)) d,
          st\<lparr>votes_st := filter (\<lambda>w. vote_post_id w \<noteq> postId) (votes_st st),
             posts_st := map (\<lambda>p. if post_id p = postId then p\<lparr>score := score p - v\<rparr> else p)
                          (posts_st st)\<rparr>)
    \<and> find (\<lambda>w. vote_post_id w = postId) (votes_st (snd (handleVote uid postId v (d, st)))) = None
    \<and> (\<forall>d1. delete_post_votes (Some uid) (own_vote uid postId) d = Inr d1 \<longrightarrow>
          fst (handleVote uid postId v (d, st)) = d1 \<and> \<not> has_voted_on_post d1 uid postId)
    \<and> handleVote uid postId (- v) (d, st)
       = (request (insert_post_vote (Some uid) (vote_row uid postId (- v)))
            (request (delete_post_votes (Some uid) (own_vote uid postId)) d),
          st\<lparr>votes_st := filter (\<lambda>w. vote_post_id w \<noteq> postId) (votes_st st)
                         @ [\<lparr>vote_post_id = postId, vote_value = - v\<rparr>],
             posts_st := map (\<lambda>p. if post_id p = postId then p\<lparr>score := score p - 2 * v\<rparr> else p)
                          (posts_st st)\<rparr>)"
proof -
  have same: "handleVote uid postId v (d, st)
       = (request (delete_post_votes (Some uid) (own_vote uid postId)) d,
          st\<lparr>votes_st := filter (\<lambda>w. vote_post_id w \<noteq> postId) (votes_st st),
             posts_st := map (\<lambda>p. if post_id p = postId then p\<lparr>score := score p - v\<rparr> else p)
                          (posts_st st)\<rparr>)"
    using assms(1,2) by (simp add: handleVote_def)
  have none: "find (\<lambda>w. vote_post_id w = postId)
      (votes_st (snd (handleVote uid postId v (d, st)))) = None"
    by (simp add: same find_filter_none)
  have dbs: "fst (handleVote uid postId v (d, st)) = d1 \<and> \<not> has_voted_on_post d1 uid postId"
    if "delete_post_votes (Some uid) (own_vote uid postId) d = Inr d1" for d1
    using request_delete_own_vote [OF that] by (simp add: same)
  from assms(3) have ne: "v \<noteq> - v"
    by auto
  have sc: "(if post_id p = postId then p\<lparr>score := score p - v\<rparr> else p)
        = q \<Longrightarrow> (if post_id q = postId then q\<lparr>score := score q + - v\<rparr> else q)
        = (if post_id p = postId then p\<lparr>score := score p - 2 * v\<rparr> else p)"
    for p q :: post
    by auto
  have flip: "handleVote uid postId (- v) (d, st)
       = (request (insert_post_vote (Some uid) (vote_row uid postId (- v)))
            (request (delete_post_votes (Some uid) (own_vote uid postId)) d),
          st\<lparr>votes_st := filter (\<lambda>w. vote_post_id w \<noteq> postId) (votes_st st)
                         @ [\<lparr>vote_post_id = postId, vote_value = - v\<rparr>],
             posts_st := map (\<lambda>p. if post_id p = postId then p\<lparr>score := score p - 2 * v\<rparr> else p)
                          (posts_st st)\<rparr>)"
    using assms(1,2) ne by (simp add: handleVote_def comp_def sc)
  from same none dbs flip show ?thesis
    by blast
qed


theorem handleVote_toggles_or_flips_witness:
  "find (\<lambda>w. vote_post_id w = 10) (votes_st voted_state)
     = Some \<lparr>vote_post_id = 10, vote_value = 1\<rparr>
   \<and> handleVote 2 10 1 (voted_db, voted_state)
       = (example_db, \<lparr>votes_st = [], posts_st = [example_post]\<rparr>)
   \<and> \<not> has_voted_on_post example_db 2 10
   \<and> handleVote 2 10 (- 1) (voted_db, voted_state)
       = (example_db\<lparr>posts := [example_post\<lparr>score := - 1\<rparr>],
                      post_votes := [vote_row 2 10 (- 1)]\<rparr>,
          \<lparr>votes_st = [\<lparr>vote_post_id = 10, vote_value = - 1\<rparr>],
           posts_st = [example_post\<lparr>score := - 1\<rparr>]\<rparr>)"
proof -
  have h1: "find (\<lambda>w. vote_post_id w = 10) (votes_st voted_state)
     = Some \<lparr>vote_post_id = 10, vote_value = 1\<rparr>"
    by (simp add: voted_state_def)
  have h2: "vote_value \<lparr>vote_post_id = 10, vote_value = 1\<rparr> = 1"
    by simp
  have h3: "(1::int) = 1 \<or> (1::int) = - 1"
    by simp
  have del: "delete_post_votes (Some 2) (own_vote 2 10) voted_db = Inr example_db"
    by (simp add: voted_db_def example_db_def example_post_def vote_row_def
        delete_post_votes_def visible_for_delete_def own_vote_def update_score_def int4_def)
  have ins: "insert_post_vote (Some 2) (vote_row 2 10 (- 1)) example_db
      = Inr (example_db\<lparr>posts := [example_post\<lparr>score := - 1\<rparr>],
                        post_votes := [vote_row 2 10 (- 1)]\<rparr>)"
    by (simp add: example_db_def example_post_def vote_row_def insert_post_vote_def
        has_voted_on_post_def apply_delta_def update_score_def int4_def)
  note t = handleVote_toggles_or_flips [OF h1 h2 h3, of 2 voted_db]
  from t del have a: "handleVote 2 10 1 (voted_db, voted_state)
       = (example_db, \<lparr>votes_st = [], posts_st = [example_post]\<rparr>)"
    by (simp add: request_def voted_state_def example_post_def)
  from t del have b: "\<not> has_voted_on_post example_db 2 10"
    by blast
  from t del ins have c: "handleVote 2 10 (- 1) (voted_db, voted_state)
       = (example_db\<lparr>posts := [example_post\<lparr>score := - 1\<rparr>],
                      post_votes := [vote_row 2 10 (- 1)]\<rparr>,
          \<lparr>votes_st = [\<lparr>vote_post_id = 10, vote_value = - 1\<rparr>],
           posts_st = [example_post\<lparr>score := - 1\<rparr>]\<rparr>)"
    by (simp add: request_def voted_state_def example_post_def)
  from h1 a b c show ?thesis
    by (intro conjI)
qed

end
